theory Spec2Isabelle
  imports Complex_Main "HOL-Library.Sublist"
begin

section \<open>Python values and strings\<close>

text \<open>
  A Python \<open>str\<close> is a sequence of Unicode code points, so a string is a list of
  natural numbers, one per code point, and \<open>length\<close> counts what Python's \<open>len\<close>
  counts. \<open>ustr\<close> turns an ASCII literal into such a string.
\<close>

type_synonym ustring = "nat list"

definition ustr :: "string \<Rightarrow> ustring" where
  "ustr s = map of_char s"

text \<open>
  The values a table cell or a metadata entry can hold: a string, an integer, a
  boolean, \<open>None\<close>, or the float \<open>nan\<close> that pandas puts where a value is missing.
\<close>

datatype pyobj = PyStr ustring | PyInt int | PyBool bool | PyNone | PyNaN

text \<open>
  \<open>is_space\<close> is the character class of \<open>\s\<close> in a \<open>str\<close> pattern and of
  \<open>str.strip()\<close>, which are the same test in CPython: the Unicode whitespace code
  points (U+0009..U+000D, U+001C..U+0020, U+0085, U+00A0, U+1680, U+2000..U+200A,
  U+2028, U+2029, U+202F, U+205F, U+3000).
\<close>

definition is_space :: "nat \<Rightarrow> bool" where
  "is_space c \<longleftrightarrow>
     (9 \<le> c \<and> c \<le> 13) \<or> (28 \<le> c \<and> c \<le> 32) \<or> c = 133 \<or> c = 160 \<or> c = 5760 \<or>
     (8192 \<le> c \<and> c \<le> 8202) \<or> c = 8232 \<or> c = 8233 \<or> c = 8239 \<or> c = 8287 \<or>
     c = 12288"

definition LT :: nat where "LT = of_char (CHR ''<'')"
definition GT :: nat where "GT = of_char (CHR ''>'')"
definition LF :: nat where "LF = 10"
definition SP :: nat where "SP = of_char (CHR '' '')"


section \<open>The text normalizer (\<open>ClaimIngestor._clean_tweet_content\<close>)\<close>

subsection \<open>\<open>re.sub(r"http\S+|www\S+|https\S+", "", text)\<close>\<close>

text \<open>
  \<open>match_word p s\<close> is one alternative \<open>p\S+\<close> tried at the head of \<open>s\<close>: the
  literal \<open>p\<close>, then at least one character that is not whitespace, then (the plus
  is greedy and nothing follows it) every further such character. The result is what
  is left of \<open>s\<close> after the match.
\<close>

definition match_word :: "ustring \<Rightarrow> ustring \<Rightarrow> ustring option" where
  "match_word p s =
     (if prefix p s then
        (case drop (length p) s of
           [] \<Rightarrow> None
         | c # cs \<Rightarrow> if is_space c then None else Some (dropWhile (\<lambda>x. \<not> is_space x) cs))
      else None)"

text \<open>The three alternatives, tried in the order the pattern lists them.\<close>

definition match_url :: "ustring \<Rightarrow> ustring option" where
  "match_url s =
     (case match_word (ustr ''http'') s of
        Some r \<Rightarrow> Some r
      | None \<Rightarrow>
         (case match_word (ustr ''www'') s of
            Some r \<Rightarrow> Some r
          | None \<Rightarrow> match_word (ustr ''https'') s))"

text \<open>
  \<open>re.sub\<close> scans from the left: where the pattern matches, the match is replaced
  (here by nothing) and the scan goes on behind it; elsewhere the character is kept.
\<close>

function sub_url :: "ustring \<Rightarrow> ustring" where
  "sub_url [] = []"
| "sub_url (c # cs) =
     (case match_url (c # cs) of
        Some rest \<Rightarrow> sub_url rest
      | None \<Rightarrow> c # sub_url cs)"
  by pat_completeness auto
termination
proof (relation "measure length")
  show "wf (measure length)" by simp
next
  fix c :: nat and cs rest :: ustring
  assume m: "match_url (c # cs) = Some rest"
  have w: "length r < length s" if "match_word p s = Some r" for p s r
  proof -
    from that obtain d ds where d: "drop (length p) s = d # ds"
      and r: "r = dropWhile (\<lambda>x. \<not> is_space x) ds"
      by (auto simp: match_word_def split: if_splits list.splits)
    have "length r \<le> length ds" unfolding r by (rule length_dropWhile_le)
    moreover have "length (d # ds) \<le> length s" unfolding d [symmetric] by simp
    ultimately show ?thesis by simp
  qed
  from m have "length rest < length (c # cs)"
    by (auto simp: match_url_def split: option.splits dest: w)
  then show "(rest, c # cs) \<in> measure length" by simp
next
  fix c :: nat and cs :: ustring
  show "(cs, c # cs) \<in> measure length" by simp
qed

subsection \<open>\<open>re.sub(r"<.*?>", "", text)\<close>\<close>

text \<open>
  After the opening angle bracket, the lazy \<open>.*?\<close> takes as few characters as it can
  before a closing one: the match ends at the first \<open>GT\<close>. The dot does not match a line feed
  (no \<open>DOTALL\<close> flag), so the match fails when a line feed comes first.
\<close>

fun match_tag_body :: "ustring \<Rightarrow> ustring option" where
  "match_tag_body [] = None"
| "match_tag_body (c # cs) =
     (if c = GT then Some cs else if c = LF then None else match_tag_body cs)"

definition match_tag :: "ustring \<Rightarrow> ustring option" where
  "match_tag s =
     (case s of [] \<Rightarrow> None | c # cs \<Rightarrow> if c = LT then match_tag_body cs else None)"

function sub_tag :: "ustring \<Rightarrow> ustring" where
  "sub_tag [] = []"
| "sub_tag (c # cs) =
     (case match_tag (c # cs) of
        Some rest \<Rightarrow> sub_tag rest
      | None \<Rightarrow> c # sub_tag cs)"
  by pat_completeness auto
termination
proof (relation "measure length")
  show "wf (measure length)" by simp
next
  fix c :: nat and cs rest :: ustring
  assume m: "match_tag (c # cs) = Some rest"
  have b: "length r \<le> length s" if "match_tag_body s = Some r" for s r
    using that by (induction s) (auto split: if_splits)
  from m have "match_tag_body cs = Some rest"
    by (simp add: match_tag_def split: if_splits)
  then have "length rest \<le> length cs" by (rule b)
  then show "(rest, c # cs) \<in> measure length" by simp
next
  fix c :: nat and cs :: ustring
  show "(cs, c # cs) \<in> measure length" by simp
qed

subsection \<open>\<open>re.sub(r"\s+", " ", text).strip()\<close>\<close>

text \<open>Every maximal run of whitespace becomes one space character.\<close>

function sub_space :: "ustring \<Rightarrow> ustring" where
  "sub_space [] = []"
| "sub_space (c # cs) =
     (if is_space c then SP # sub_space (dropWhile is_space cs) else c # sub_space cs)"
  by pat_completeness auto
termination
proof (relation "measure length")
  show "wf (measure length)" by simp
next
  fix c :: nat and cs :: ustring
  have "length (dropWhile is_space cs) \<le> length cs" by (rule length_dropWhile_le)
  then show "(dropWhile is_space cs, c # cs) \<in> measure length" by simp
next
  fix c :: nat and cs :: ustring
  show "(cs, c # cs) \<in> measure length" by simp
qed

text \<open>\<open>str.strip()\<close> with no argument: whitespace goes from both ends.\<close>

definition strip :: "ustring \<Rightarrow> ustring" where
  "strip s = rev (dropWhile is_space (rev (dropWhile is_space s)))"

subsection \<open>The normalizer\<close>

text \<open>
  \<open>_clean_tweet_content\<close>: anything that is not a \<open>str\<close> gives the empty string;
  a string goes through the three substitutions and the strip, in the source's order.
\<close>

definition clean_text :: "ustring \<Rightarrow> ustring" where
  "clean_text text = strip (sub_space (sub_tag (sub_url text)))"

fun clean_tweet_content :: "pyobj \<Rightarrow> ustring" where
  "clean_tweet_content (PyStr text) = clean_text text"
| "clean_tweet_content v = []"

subsection \<open>What the normalizer's output is checked for\<close>

text \<open>
  \<open>has_url s\<close>: the URL pattern of the first substitution matches somewhere in \<open>s\<close>
  (a token that starts with \<open>http\<close> or \<open>www\<close> and goes on). \<open>has_tag s\<close>: the tag
  pattern of the second substitution matches somewhere in \<open>s\<close>.
\<close>

fun has_url :: "ustring \<Rightarrow> bool" where
  "has_url [] = False"
| "has_url (c # cs) = (case match_url (c # cs) of Some r \<Rightarrow> True | None \<Rightarrow> has_url cs)"

fun has_tag :: "ustring \<Rightarrow> bool" where
  "has_tag [] = False"
| "has_tag (c # cs) = (case match_tag (c # cs) of Some r \<Rightarrow> True | None \<Rightarrow> has_tag cs)"

text \<open>Two whitespace characters side by side.\<close>

fun double_space :: "ustring \<Rightarrow> bool" where
  "double_space (a # b # cs) = ((is_space a \<and> is_space b) \<or> double_space (b # cs))"
| "double_space cs = False"

text \<open>No whitespace at either end.\<close>

definition trimmed :: "ustring \<Rightarrow> bool" where
  "trimmed s \<longleftrightarrow> s = [] \<or> (\<not> is_space (hd s) \<and> \<not> is_space (last s))"

text \<open>An opening angle bracket with a closing one somewhere behind it.\<close>

definition lt_then_gt :: "ustring \<Rightarrow> bool" where
  "lt_then_gt s \<longleftrightarrow> GT \<in> set (dropWhile (\<lambda>c. c \<noteq> LT) s)"

text \<open>The head of a URL match: \<open>http\<close> or \<open>www\<close> and one more character of the token.\<close>

definition url_head :: "ustring \<Rightarrow> bool" where
  "url_head s \<longleftrightarrow>
     (\<exists>c cs. \<not> is_space c \<and>
        (s = 104 # 116 # 116 # 112 # c # cs \<or> s = 119 # 119 # 119 # c # cs))"


section \<open>The retrieval engine (\<open>ClaimRetriever.search\<close>)\<close>

text \<open>
  The vector store is a collaborator outside the repository. What \<open>search\<close> does with
  it is one call, so the store is a function from the call it receives to what it
  answers: documents, or the exception it raises. \<open>search\<close> itself only logs besides;
  the log lines are left out. \<open>exn\<close> lists the Python exceptions of the whole model.
\<close>

datatype exn =
    UnicodeDecodeError | ParserError | EmptyDataError | FileNotFoundError
  | ValueError | KeyError

datatype index_call =
    MaxMarginalRelevanceSearch ustring int int real
  | SimilaritySearch ustring int

text \<open>The arguments of a call: \<open>k\<close>, and \<open>fetch_k\<close> where the call has one.\<close>

fun call_k :: "index_call \<Rightarrow> int" where
  "call_k (MaxMarginalRelevanceSearch query k fetch_k lambda_mult) = k"
| "call_k (SimilaritySearch query k) = k"

fun call_fetch_k :: "index_call \<Rightarrow> int option" where
  "call_fetch_k (MaxMarginalRelevanceSearch query k fetch_k lambda_mult) = Some fetch_k"
| "call_fetch_k (SimilaritySearch query k) = None"

definition search :: "(index_call \<Rightarrow> exn + 'd list) \<Rightarrow> ustring \<Rightarrow> int \<Rightarrow> bool \<Rightarrow> exn + 'd list" where
  "search vector_db query k use_mmr =
     (if use_mmr then vector_db (MaxMarginalRelevanceSearch query k 20 (1 / 2))
      else vector_db (SimilaritySearch query k))"

text \<open>
  A store for running \<open>search\<close> on concrete inputs: it accepts every call and answers
  with the call it received, which shows what reached the store.
\<close>

definition echo_index :: "index_call \<Rightarrow> exn + index_call list" where
  "echo_index c = Inr [c]"


section \<open>The context string (\<open>ClaimGenerator.generate_answer\<close>)\<close>

text \<open>
  A retrieved entry is a LangChain \<open>Document\<close>: its text and a metadata dictionary.
\<close>

record document =
  page_content :: ustring
  metadata :: "(ustring \<times> pyobj) list"

text \<open>\<open>dict.get(key)\<close>: the value, or \<open>None\<close> where the key is missing.\<close>

definition dict_get :: "(ustring \<times> pyobj) list \<Rightarrow> ustring \<Rightarrow> pyobj" where
  "dict_get d key = (case map_of d key of Some v \<Rightarrow> v | None \<Rightarrow> PyNone)"

text \<open>\<open>str\<close> of an integer is its decimal numeral; an f-string formats a value by \<open>str\<close>.\<close>

function str_nat :: "nat \<Rightarrow> ustring" where
  "str_nat n = (if n < 10 then [48 + n] else str_nat (n div 10) @ [48 + n mod 10])"
  by pat_completeness auto
termination
  by (relation "measure id") auto

definition str_int :: "int \<Rightarrow> ustring" where
  "str_int i = (if i < 0 then 45 # str_nat (nat (- i)) else str_nat (nat i))"

fun py_str :: "pyobj \<Rightarrow> ustring" where
  "py_str (PyStr s) = s"
| "py_str (PyInt i) = str_int i"
| "py_str (PyBool b) = (if b then ustr ''True'' else ustr ''False'')"
| "py_str PyNone = ustr ''None''"
| "py_str PyNaN = ustr ''nan''"

text \<open>\<open>enumerate\<close> and \<open>str.join\<close>.\<close>

definition enumerate_from0 :: "'a list \<Rightarrow> (int \<times> 'a) list" where
  "enumerate_from0 xs = zip (map int [0..<length xs]) xs"

fun join :: "ustring \<Rightarrow> ustring list \<Rightarrow> ustring" where
  "join sep [] = []"
| "join sep [x] = x"
| "join sep (x # y # ys) = x @ sep @ join sep (y # ys)"

text \<open>
  The f-string of the comprehension:
  \<^verbatim>\<open>f"Source [{i + 1}]: {doc.page_content} (Label: {doc.metadata.get('class_label')})"\<close>
\<close>

definition source_line :: "int \<Rightarrow> document \<Rightarrow> ustring" where
  "source_line i doc =
     ustr ''Source ['' @ str_int (i + 1) @ ustr '']: '' @ page_content doc @
     ustr '' (Label: '' @ py_str (dict_get (metadata doc) (ustr ''class_label'')) @ ustr '')''"

definition context_text :: "document list \<Rightarrow> ustring" where
  "context_text context =
     join [LF, LF] (map (\<lambda>(i, doc). source_line i doc) (enumerate_from0 context))"

text \<open>
  The rest of \<open>generate_answer\<close> hands the context string and the query to the language
  model, a collaborator outside the repository: \<open>llm\<close> is the prompt chain.
\<close>

definition generate_answer :: "(ustring \<Rightarrow> ustring \<Rightarrow> ustring) \<Rightarrow> ustring \<Rightarrow> document list \<Rightarrow> ustring" where
  "generate_answer llm query context = llm (context_text context) query"


section \<open>The ingestion pipeline (\<open>ClaimIngestor\<close>)\<close>

subsection \<open>Tables and files\<close>

text \<open>
  A pandas \<open>DataFrame\<close> is its column names and its rows, every row holding one cell
  per column. \<open>cell\<close> reads a row by column name; a column the row does not have
  reads as \<open>nan\<close>, which is what pandas shows for a missing value.
\<close>

record dataframe =
  columns :: "ustring list"
  rows :: "pyobj list list"

definition cell :: "dataframe \<Rightarrow> pyobj list \<Rightarrow> ustring \<Rightarrow> pyobj" where
  "cell df r c = (case map_of (zip (columns df) r) c of Some v \<Rightarrow> v | None \<Rightarrow> PyNaN)"

text \<open>\<open>df.empty\<close>: an axis of length zero.\<close>

definition df_empty :: "dataframe \<Rightarrow> bool" where
  "df_empty df \<longleftrightarrow> rows df = [] \<or> columns df = []"

text \<open>\<open>df[c] = v\<close> with a scalar: the column is overwritten, or added at the end.\<close>

definition assign_column :: "dataframe \<Rightarrow> ustring \<Rightarrow> pyobj \<Rightarrow> dataframe" where
  "assign_column df c v =
     (if c \<in> set (columns df) then
        df\<lparr>rows := map (\<lambda>r. map (\<lambda>(k, x). if k = c then v else x) (zip (columns df) r)) (rows df)\<rparr>
      else
        \<lparr>columns = columns df @ [c], rows = map (\<lambda>r. r @ [v]) (rows df)\<rparr>)"

text \<open>
  \<open>df[c] = df[c].apply(f)\<close>: \<open>KeyError\<close> where the table has no column \<open>c\<close>.
\<close>

definition apply_column :: "dataframe \<Rightarrow> ustring \<Rightarrow> (pyobj \<Rightarrow> pyobj) \<Rightarrow> exn + dataframe" where
  "apply_column df c f =
     (if c \<notin> set (columns df) then Inl KeyError
      else Inr (df\<lparr>rows :=
        map (\<lambda>r. map (\<lambda>(k, x). if k = c then f x else x) (zip (columns df) r)) (rows df)\<rparr>))"

text \<open>
  \<open>pd.concat(frames, ignore_index=True)\<close>: \<open>ValueError\<close> on an empty list; otherwise
  the columns are the union of the frames' columns in the order they first appear, and
  the rows follow each other, a cell of a column that a frame lacks being \<open>nan\<close>.
\<close>

definition concat_frames :: "dataframe list \<Rightarrow> exn + dataframe" where
  "concat_frames dfs =
     (if dfs = [] then Inl ValueError
      else
        (let cols = rev (remdups (rev (concat (map columns dfs))))
         in Inr \<lparr>columns = cols,
                 rows = concat (map (\<lambda>df. map (\<lambda>r. map (cell df r) cols) (rows df)) dfs)\<rparr>))"

text \<open>
  A source file, as far as \<open>pd.read_csv\<close> tells files apart: whether its bytes are
  valid UTF-8, the names in its header line, and the fields of each further line.
  Any byte sequence decodes under latin-1.
\<close>

record tsv_file =
  utf8_ok :: bool
  header :: "ustring list"
  lines :: "pyobj list list"

datatype encoding = UTF8 | Latin1

datatype on_bad_lines = BadLinesError | BadLinesWarn | BadLinesSkip

text \<open>
  The lines of a file under an \<open>on_bad_lines\<close> policy, as the pandas documentation
  gives it: a bad line is one with too many fields (more than the header has names);
  \<open>error\<close> raises on it, \<open>warn\<close> warns and skips it, \<open>skip\<close> skips it silently. A
  line with too few fields is filled up with \<open>nan\<close>. The result is the numbers of the
  lines that were skipped with a warning, and the rows.
\<close>

fun parse_lines :: "on_bad_lines \<Rightarrow> nat \<Rightarrow> nat \<Rightarrow> pyobj list list \<Rightarrow> exn + (nat list \<times> pyobj list list)" where
  "parse_lines mode n i [] = Inr ([], [])"
| "parse_lines mode n i (l # ls) =
     (if n < length l then
        (case mode of
           BadLinesError \<Rightarrow> Inl ParserError
         | BadLinesWarn \<Rightarrow>
            (case parse_lines mode n (i + 1) ls of
               Inl e \<Rightarrow> Inl e
             | Inr (ws, rs) \<Rightarrow> Inr (i # ws, rs))
         | BadLinesSkip \<Rightarrow> parse_lines mode n (i + 1) ls)
      else
        (case parse_lines mode n (i + 1) ls of
           Inl e \<Rightarrow> Inl e
         | Inr (ws, rs) \<Rightarrow> Inr (ws, (l @ replicate (n - length l) PyNaN) # rs)))"

text \<open>
  \<open>pd.read_csv(path, sep="\t", encoding=..., on_bad_lines=...)\<close> on the files of the
  data directory, \<open>fs\<close> mapping a file name to the file.
\<close>

definition read_csv :: "(ustring \<rightharpoonup> tsv_file) \<Rightarrow> ustring \<Rightarrow> encoding \<Rightarrow> on_bad_lines \<Rightarrow> exn + (nat list \<times> dataframe)" where
  "read_csv fs file_name enc mode =
     (case fs file_name of
        None \<Rightarrow> Inl FileNotFoundError
      | Some f \<Rightarrow>
         (if enc = UTF8 \<and> \<not> utf8_ok f then Inl UnicodeDecodeError
          else if header f = [] then Inl EmptyDataError
          else
            (case parse_lines mode (length (header f)) 0 (lines f) of
               Inl e \<Rightarrow> Inl e
             | Inr (ws, rs) \<Rightarrow> Inr (ws, \<lparr>columns = header f, rows = rs\<rparr>))))"

subsection \<open>\<open>_validate_tsv\<close>\<close>

text \<open>\<open>str.rfind\<close> of one character, and \<open>Path.suffix\<close> of a file name.\<close>

fun rfind :: "ustring \<Rightarrow> nat \<Rightarrow> int" where
  "rfind [] c = - 1"
| "rfind (x # xs) c =
     (let r = rfind xs c in if 0 \<le> r then r + 1 else if x = c then 0 else - 1)"

definition path_suffix :: "ustring \<Rightarrow> ustring" where
  "path_suffix name =
     (let i = rfind name (of_char (CHR ''.''))
      in if 0 < i \<and> i < int (length name) - 1 then drop (nat i) name else [])"

text \<open>
  What the pipeline does besides returning: its log lines, its calls of \<open>read_csv\<close>,
  and the warning pandas gives for a line it skips.
\<close>

datatype event =
    MissingFile ustring
  | UnexpectedExtension ustring
  | Reading ustring
  | ReadCsv ustring encoding on_bad_lines
  | BadLineWarning ustring nat
  | Utf8Failed ustring
  | Ingested nat ustring

definition validate_tsv :: "(ustring \<rightharpoonup> tsv_file) \<Rightarrow> ustring \<Rightarrow> event list \<times> bool" where
  "validate_tsv fs file_name =
     (if fs file_name = None then ([MissingFile file_name], False)
      else if path_suffix file_name \<noteq> ustr ''.tsv'' then ([UnexpectedExtension file_name], False)
      else ([], True))"

subsection \<open>\<open>load_source_data\<close>\<close>

text \<open>
  The \<open>try\<close> of the loop body: the file is read as UTF-8 with \<open>on_bad_lines="warn"\<close>;
  on \<open>UnicodeDecodeError\<close>, and on no other exception, it is read again as latin-1,
  this time with no \<open>on_bad_lines\<close> argument, which is pandas' default \<open>"error"\<close>.
\<close>

definition read_with_fallback :: "(ustring \<rightharpoonup> tsv_file) \<Rightarrow> ustring \<Rightarrow> event list \<times> (exn + dataframe)" where
  "read_with_fallback fs file_name =
     (case read_csv fs file_name UTF8 BadLinesWarn of
        Inr (ws, df) \<Rightarrow>
          (ReadCsv file_name UTF8 BadLinesWarn # map (BadLineWarning file_name) ws, Inr df)
      | Inl UnicodeDecodeError \<Rightarrow>
          (case read_csv fs file_name Latin1 BadLinesError of
             Inr (ws, df) \<Rightarrow>
               ([ReadCsv file_name UTF8 BadLinesWarn, Utf8Failed file_name,
                 ReadCsv file_name Latin1 BadLinesError] @ map (BadLineWarning file_name) ws,
                Inr df)
           | Inl e \<Rightarrow>
               ([ReadCsv file_name UTF8 BadLinesWarn, Utf8Failed file_name,
                 ReadCsv file_name Latin1 BadLinesError], Inl e))
      | Inl e \<Rightarrow> ([ReadCsv file_name UTF8 BadLinesWarn], Inl e))"

text \<open>
  One turn of the loop for \<open>file_name\<close>: the events of the turn, and the list of
  tables after it, or the exception that leaves \<open>load_source_data\<close>.
\<close>

definition load_file :: "(ustring \<rightharpoonup> tsv_file) \<Rightarrow> ustring \<Rightarrow> dataframe list \<Rightarrow> event list \<times> (exn + dataframe list)" where
  "load_file fs file_name dataframes =
     (case validate_tsv fs file_name of
        (ev, False) \<Rightarrow> (ev, Inr dataframes)
      | (ev, True) \<Rightarrow>
         (case read_with_fallback fs file_name of
            (ev2, Inl e) \<Rightarrow> (ev @ Reading file_name # ev2, Inl e)
          | (ev2, Inr df) \<Rightarrow>
             (if \<not> df_empty df then
                (ev @ Reading file_name # ev2 @ [Ingested (length (rows df)) file_name],
                 Inr (dataframes @
                   [assign_column df (ustr ''source_filename'') (PyStr file_name)]))
              else (ev @ Reading file_name # ev2, Inr dataframes))))"

fun load_files :: "(ustring \<rightharpoonup> tsv_file) \<Rightarrow> ustring list \<Rightarrow> dataframe list \<Rightarrow> event list \<times> (exn + dataframe list)" where
  "load_files fs [] dataframes = ([], Inr dataframes)"
| "load_files fs (file_name # rest) dataframes =
     (case load_file fs file_name dataframes of
        (ev, Inl e) \<Rightarrow> (ev, Inl e)
      | (ev, Inr dataframes') \<Rightarrow>
         (case load_files fs rest dataframes' of (ev', r) \<Rightarrow> (ev @ ev', r)))"

definition target_files :: "ustring list" where
  "target_files = [ustr ''claim_dataset.tsv'', ustr ''checkworthiness_dataset.tsv'']"

definition load_source_data :: "(ustring \<rightharpoonup> tsv_file) \<Rightarrow> event list \<times> (exn + dataframe list)" where
  "load_source_data fs = load_files fs target_files []"

subsection \<open>\<open>process_and_unify\<close>\<close>

definition process_and_unify :: "dataframe list \<Rightarrow> exn + dataframe" where
  "process_and_unify dataframes =
     (case concat_frames dataframes of
        Inl e \<Rightarrow> Inl e
      | Inr master_df \<Rightarrow>
          apply_column master_df (ustr ''tweet_text'') (\<lambda>v. PyStr (clean_tweet_content v)))"

subsection \<open>Sample files\<close>

text \<open>
  A two-column file with one good line and one line of three fields. \<open>sample_latin1\<close>
  is the same file with a byte that is not valid UTF-8 in it.
\<close>

definition sample_utf8 :: tsv_file where
  "sample_utf8 =
     \<lparr>utf8_ok = True,
      header = [ustr ''tweet_id'', ustr ''tweet_text''],
      lines = [[PyInt 1, PyStr (ustr ''Vaccine trials begin in Cuba http://x.co'')],
               [PyInt 2, PyStr (ustr ''No relation''), PyStr (ustr ''to vaccines'')]]\<rparr>"

definition sample_latin1 :: tsv_file where
  "sample_latin1 = sample_utf8\<lparr>utf8_ok := False\<rparr>"

definition sample_fs :: "tsv_file \<Rightarrow> ustring \<rightharpoonup> tsv_file" where
  "sample_fs f = [ustr ''claim_dataset.tsv'' \<mapsto> f]"


section \<open>Properties of the normalizer\<close>

subsection \<open>The URL substitution\<close>

lemma ustr_http: "ustr ''http'' = [104, 116, 116, 112]"
  and ustr_www: "ustr ''www'' = [119, 119, 119]"
  and ustr_https: "ustr ''https'' = [104, 116, 116, 112, 115]"
  by (simp_all add: ustr_def)

lemma not_space_letters:
  "\<not> is_space 104" "\<not> is_space 116" "\<not> is_space 112" "\<not> is_space 119" "\<not> is_space 115"
  "\<not> is_space LT" "\<not> is_space GT" "is_space SP" "is_space LF"
  by (simp_all add: is_space_def LT_def GT_def SP_def LF_def)

lemma match_word_Some:
  "match_word p s = Some r \<longleftrightarrow>
     (\<exists>c cs. s = p @ c # cs \<and> \<not> is_space c \<and> r = dropWhile (\<lambda>x. \<not> is_space x) cs)"
  by (auto simp: match_word_def prefix_def split: list.splits)

lemma match_word_None:
  "match_word p s = None \<longleftrightarrow> \<not> (\<exists>c cs. s = p @ c # cs \<and> \<not> is_space c)"
  by (auto simp: match_word_def prefix_def split: list.splits)

lemma match_url_None: "match_url s = None \<longleftrightarrow> \<not> url_head s"
  unfolding match_url_def url_head_def ustr_http ustr_www ustr_https
  by (auto simp: match_word_None match_word_Some not_space_letters split: option.splits)

lemma dropWhile_nonspace:
  "dropWhile (\<lambda>x. \<not> is_space x) cs = [] \<or> is_space (hd (dropWhile (\<lambda>x. \<not> is_space x) cs))"
  using hd_dropWhile [of "\<lambda>x. \<not> is_space x" cs] by blast

lemma match_url_rest:
  assumes "match_url s = Some r"
  shows "r = [] \<or> is_space (hd r)"
proof -
  from assms obtain cs where "r = dropWhile (\<lambda>x. \<not> is_space x) cs"
    by (auto simp: match_url_def match_word_Some split: option.splits)
  then show ?thesis using dropWhile_nonspace [of cs] by simp
qed

lemma match_url_suffix:
  assumes "match_url s = Some r"
  shows "suffix r s"
proof -
  have "suffix (dropWhile P cs) (p @ c # cs)" for P p and c :: nat and cs
    by (metis suffix_dropWhile suffix_Cons suffix_append suffix_order.trans suffix_order.refl)
  with assms show ?thesis
    by (auto simp: match_url_def match_word_Some split: option.splits)
qed

lemma space_not_url_head: "is_space c \<Longrightarrow> \<not> url_head (c # cs)"
  by (auto simp: url_head_def not_space_letters)

lemma sub_url_space: "is_space c \<Longrightarrow> sub_url (c # cs) = c # sub_url cs"
  using space_not_url_head [of c cs] by (simp add: match_url_None [symmetric])

lemma sub_url_hd:
  assumes "sub_url s = y # r" "\<not> is_space y"
  shows "\<exists>s'. s = y # s' \<and> r = sub_url s'"
proof (cases s)
  case Nil
  with assms show ?thesis by simp
next
  case (Cons c cs)
  show ?thesis
  proof (cases "match_url (c # cs)")
    case None
    with assms Cons show ?thesis by simp
  next
    case (Some rest)
    with assms Cons have eq: "sub_url rest = y # r" by simp
    show ?thesis
    proof (cases rest)
      case Nil
      with eq show ?thesis by simp
    next
      case (Cons a list)
      with match_url_rest [OF Some] have "is_space a" by simp
      then have "sub_url rest = a # sub_url list"
        unfolding Cons by (rule sub_url_space)
      with eq assms(2) \<open>is_space a\<close> show ?thesis by simp
    qed
  qed
qed

lemma sub_url_hd_eq:
  assumes "y # r = sub_url s" "\<not> is_space y"
  shows "\<exists>s'. s = y # s' \<and> r = sub_url s'"
  using sub_url_hd [of s y r] assms by simp

lemma url_head_sub_url:
  assumes "url_head (c # sub_url cs)"
  shows "url_head (c # cs)"
proof -
  from assms obtain x xs where x: "\<not> is_space x"
    and d: "sub_url cs = 116 # 116 # 112 # x # xs \<and> c = 104 \<or> sub_url cs = 119 # 119 # x # xs \<and> c = 119"
    unfolding url_head_def by auto
  from d show ?thesis
  proof
    assume a: "sub_url cs = 116 # 116 # 112 # x # xs \<and> c = 104"
    then obtain s1 where s1: "cs = 116 # s1" "116 # 112 # x # xs = sub_url s1"
      using sub_url_hd [of cs 116] by (auto simp: not_space_letters)
    then obtain s2 where s2: "s1 = 116 # s2" "112 # x # xs = sub_url s2"
      using sub_url_hd_eq [of 116 _ s1] by (auto simp: not_space_letters)
    then obtain s3 where s3: "s2 = 112 # s3" "x # xs = sub_url s3"
      using sub_url_hd_eq [of 112 _ s2] by (auto simp: not_space_letters)
    then obtain s4 where s4: "s3 = x # s4"
      using sub_url_hd_eq [of x xs s3] x by auto
    from a s1 s2 s3 s4 x show ?thesis unfolding url_head_def by auto
  next
    assume a: "sub_url cs = 119 # 119 # x # xs \<and> c = 119"
    then obtain s1 where s1: "cs = 119 # s1" "119 # x # xs = sub_url s1"
      using sub_url_hd [of cs 119] by (auto simp: not_space_letters)
    then obtain s2 where s2: "s1 = 119 # s2" "x # xs = sub_url s2"
      using sub_url_hd_eq [of 119 _ s1] by (auto simp: not_space_letters)
    then obtain s3 where s3: "s2 = x # s3"
      using sub_url_hd_eq [of x xs s2] x by auto
    from a s1 s2 s3 x show ?thesis unfolding url_head_def by auto
  qed
qed

lemma no_url_sub_url: "\<not> has_url (sub_url s)"
proof (induction s rule: sub_url.induct)
  case 1
  show ?case by simp
next
  case (2 c cs)
  show ?case
  proof (cases "match_url (c # cs)")
    case None
    then have "match_url (c # sub_url cs) = None"
      using url_head_sub_url [of c cs] by (auto simp: match_url_None)
    with None 2 show ?thesis by simp
  next
    case (Some rest)
    with 2 show ?thesis by simp
  qed
qed

lemma sub_url_id: "\<not> has_url s \<Longrightarrow> sub_url s = s"
  by (induction s) (auto split: option.splits)

lemma set_sub_url: "set (sub_url s) \<subseteq> set s"
proof (induction s rule: sub_url.induct)
  case 1
  show ?case by simp
next
  case (2 c cs)
  show ?case
  proof (cases "match_url (c # cs)")
    case None
    with 2 show ?thesis by auto
  next
    case (Some rest)
    from match_url_suffix [OF Some] have "set rest \<subseteq> set (c # cs)"
      by (rule set_mono_suffix)
    with Some 2 show ?thesis by auto
  qed
qed

subsection \<open>The tag substitution and the whitespace substitution\<close>

lemma LT_GT_LF [simp]: "LT \<noteq> GT" "GT \<noteq> LT" "LF \<noteq> GT" "GT \<noteq> LF" "LT \<noteq> LF" "LF \<noteq> LT"
  by (simp_all add: LT_def GT_def LF_def)

lemma match_tag_body_suffix: "match_tag_body s = Some r \<Longrightarrow> suffix r s"
  by (induction s) (auto split: if_splits intro: suffix_ConsI)

lemma match_tag_suffix: "match_tag s = Some r \<Longrightarrow> suffix r s"
  by (auto simp: match_tag_def split: list.splits if_splits
      dest!: match_tag_body_suffix intro: suffix_ConsI)

lemma match_tag_body_None: "GT \<notin> set s \<Longrightarrow> match_tag_body s = None"
  by (induction s) auto

lemma match_tag_body_Some: "LF \<notin> set s \<Longrightarrow> GT \<in> set s \<Longrightarrow> match_tag_body s \<noteq> None"
  by (induction s) auto

lemma match_tag_body_GT: "match_tag_body s = Some r \<Longrightarrow> GT \<in> set s"
  by (induction s) (auto split: if_splits)

lemma set_sub_tag: "set (sub_tag s) \<subseteq> set s"
proof (induction s rule: sub_tag.induct)
  case 1
  show ?case by simp
next
  case (2 c cs)
  show ?case
  proof (cases "match_tag (c # cs)")
    case None
    with 2 show ?thesis by auto
  next
    case (Some rest)
    from match_tag_suffix [OF Some] have "set rest \<subseteq> set (c # cs)"
      by (rule set_mono_suffix)
    with Some 2 show ?thesis by auto
  qed
qed

lemma sub_tag_id: "\<not> has_tag s \<Longrightarrow> sub_tag s = s"
  by (induction s) (auto split: option.splits)

lemma no_LT_no_tag: "LT \<notin> set s \<Longrightarrow> \<not> has_tag s"
  by (induction s) (auto simp: match_tag_def)

lemma no_GT_no_tag: "GT \<notin> set s \<Longrightarrow> \<not> has_tag s"
  by (induction s) (auto simp: match_tag_def match_tag_body_None)

lemma has_tag_lt_then_gt: "has_tag s \<Longrightarrow> lt_then_gt s"
  by (induction s)
     (auto simp: lt_then_gt_def match_tag_def split: option.splits if_splits
           dest: match_tag_body_GT set_dropWhileD)

lemma lt_then_gt_has_tag: "LF \<notin> set s \<Longrightarrow> lt_then_gt s \<Longrightarrow> has_tag s"
  by (induction s)
     (auto simp: lt_then_gt_def match_tag_def match_tag_body_Some split: option.splits if_splits)

lemma no_lt_then_gt_sub_tag: "LF \<notin> set s \<Longrightarrow> \<not> lt_then_gt (sub_tag s)"
proof (induction s rule: sub_tag.induct)
  case 1
  show ?case by (simp add: lt_then_gt_def)
next
  case (2 c cs)
  show ?case
  proof (cases "match_tag (c # cs)")
    case None
    have ih: "\<not> lt_then_gt (sub_tag cs)" using 2 None by simp
    show ?thesis
    proof (cases "c = LT")
      case True
      with None have "match_tag_body cs = None" by (simp add: match_tag_def)
      with 2(3) have "GT \<notin> set cs" using match_tag_body_Some [of cs] by auto
      with set_sub_tag [of cs] have "GT \<notin> set (sub_tag cs)" by auto
      with None True show ?thesis by (simp add: lt_then_gt_def)
    next
      case False
      with None ih show ?thesis by (simp add: lt_then_gt_def)
    qed
  next
    case (Some rest)
    from match_tag_suffix [OF Some] have "set rest \<subseteq> set (c # cs)"
      by (rule set_mono_suffix)
    with 2(3) have "LF \<notin> set rest" by auto
    with Some 2 show ?thesis by simp
  qed
qed

lemma lt_then_gt_append:
  "lt_then_gt a \<Longrightarrow> lt_then_gt (a @ b)" "lt_then_gt b \<Longrightarrow> lt_then_gt (a @ b)"
proof -
  show "lt_then_gt a \<Longrightarrow> lt_then_gt (a @ b)"
    by (induction a) (auto simp: lt_then_gt_def)
  show "lt_then_gt b \<Longrightarrow> lt_then_gt (a @ b)"
    by (induction a) (auto simp: lt_then_gt_def dest: set_dropWhileD)
qed


lemma sub_space_hd:
  assumes "sub_space s = y # r" "\<not> is_space y"
  shows "\<exists>s'. s = y # s' \<and> r = sub_space s'"
  using assms by (cases s) (auto simp: not_space_letters split: if_splits)

lemma sub_space_hd_eq:
  assumes "y # r = sub_space s" "\<not> is_space y"
  shows "\<exists>s'. s = y # s' \<and> r = sub_space s'"
  using sub_space_hd [of s y r] assms by simp

lemma url_head_sub_space:
  assumes "url_head (c # sub_space cs)"
  shows "url_head (c # cs)"
proof -
  from assms obtain x xs where x: "\<not> is_space x"
    and d: "sub_space cs = 116 # 116 # 112 # x # xs \<and> c = 104 \<or> sub_space cs = 119 # 119 # x # xs \<and> c = 119"
    unfolding url_head_def by auto
  from d show ?thesis
  proof
    assume a: "sub_space cs = 116 # 116 # 112 # x # xs \<and> c = 104"
    then obtain s1 where s1: "cs = 116 # s1" "116 # 112 # x # xs = sub_space s1"
      using sub_space_hd [of cs 116] by (auto simp: not_space_letters)
    then obtain s2 where s2: "s1 = 116 # s2" "112 # x # xs = sub_space s2"
      using sub_space_hd_eq [of 116 _ s1] by (auto simp: not_space_letters)
    then obtain s3 where s3: "s2 = 112 # s3" "x # xs = sub_space s3"
      using sub_space_hd_eq [of 112 _ s2] by (auto simp: not_space_letters)
    then obtain s4 where s4: "s3 = x # s4"
      using sub_space_hd_eq [of x xs s3] x by auto
    from a s1 s2 s3 s4 x show ?thesis unfolding url_head_def by auto
  next
    assume a: "sub_space cs = 119 # 119 # x # xs \<and> c = 119"
    then obtain s1 where s1: "cs = 119 # s1" "119 # x # xs = sub_space s1"
      using sub_space_hd [of cs 119] by (auto simp: not_space_letters)
    then obtain s2 where s2: "s1 = 119 # s2" "x # xs = sub_space s2"
      using sub_space_hd_eq [of 119 _ s1] by (auto simp: not_space_letters)
    then obtain s3 where s3: "s2 = x # s3"
      using sub_space_hd_eq [of x xs s2] x by auto
    from a s1 s2 s3 x show ?thesis unfolding url_head_def by auto
  qed
qed

lemma url_head_append: "url_head a \<Longrightarrow> url_head (a @ b)"
  unfolding url_head_def by auto

lemma has_url_append:
  "has_url a \<Longrightarrow> has_url (a @ b)" "has_url b \<Longrightarrow> has_url (a @ b)"
proof -
  have m: "match_url (a @ b) \<noteq> None" if "match_url a \<noteq> None" for a b
    using that url_head_append [of a b] by (simp add: match_url_None)
  show "has_url a \<Longrightarrow> has_url (a @ b)"
  proof (induction a)
    case Nil
    then show ?case by simp
  next
    case (Cons c cs)
    then show ?case using m [of "c # cs" b] by (auto split: option.splits)
  qed
  show "has_url b \<Longrightarrow> has_url (a @ b)"
    by (induction a) (auto split: option.splits)
qed

lemma has_url_dropWhile: "has_url (dropWhile P s) \<Longrightarrow> has_url s"
  using has_url_append(2) [of "dropWhile P s" "takeWhile P s"] by simp

lemma has_url_sub_space: "has_url (sub_space s) \<Longrightarrow> has_url s"
proof (induction s rule: sub_space.induct)
  case 1
  then show ?case by simp
next
  case (2 c cs)
  show ?case
  proof (cases "is_space c")
    case True
    then have "match_url (SP # sub_space (dropWhile is_space cs)) = None"
      using space_not_url_head [of SP] by (simp add: match_url_None not_space_letters)
    with 2 True have "has_url (dropWhile is_space cs)" by simp
    then have "has_url cs" by (rule has_url_dropWhile)
    then show ?thesis by (simp split: option.splits)
  next
    case False
    show ?thesis
    proof (cases "match_url (c # sub_space cs)")
      case None
      with 2 False have "has_url cs" by simp
      then show ?thesis by (simp split: option.splits)
    next
      case (Some r)
      then have "url_head (c # sub_space cs)" using match_url_None [of "c # sub_space cs"] by simp
      then have "url_head (c # cs)" by (rule url_head_sub_space)
      then show ?thesis using match_url_None [of "c # cs"] by (auto split: option.splits)
    qed
  qed
qed

lemma lt_then_gt_dropWhile: "lt_then_gt (dropWhile P s) \<Longrightarrow> lt_then_gt s"
  using lt_then_gt_append(2) [of "dropWhile P s" "takeWhile P s"] by simp

lemma set_sub_space: "set (sub_space s) \<subseteq> insert SP (set s)"
proof (induction s rule: sub_space.induct)
  case 1
  show ?case by simp
next
  case (2 c cs)
  show ?case
  proof (cases "is_space c")
    case True
    with 2 have "set (sub_space (dropWhile is_space cs)) \<subseteq> insert SP (set (dropWhile is_space cs))"
      by simp
    moreover have "set (dropWhile is_space cs) \<subseteq> set cs" by (auto dest: set_dropWhileD)
    ultimately show ?thesis using True by auto
  next
    case False
    with 2 show ?thesis by auto
  qed
qed

lemma lt_then_gt_sub_space: "lt_then_gt (sub_space s) \<Longrightarrow> lt_then_gt s"
proof (induction s rule: sub_space.induct)
  case 1
  then show ?case by simp
next
  case (2 c cs)
  show ?case
  proof (cases "is_space c")
    case True
    then have "c \<noteq> LT" using not_space_letters by auto
    have "SP \<noteq> LT" by (simp add: SP_def LT_def)
    with 2 True have "lt_then_gt (dropWhile is_space cs)" by (simp add: lt_then_gt_def)
    then have "lt_then_gt cs" by (rule lt_then_gt_dropWhile)
    with \<open>c \<noteq> LT\<close> show ?thesis by (simp add: lt_then_gt_def)
  next
    case False
    show ?thesis
    proof (cases "c = LT")
      case True
      with 2(3) False have "GT \<in> set (sub_space cs)" by (simp add: lt_then_gt_def)
      with set_sub_space [of cs] have "GT \<in> set cs" by (auto simp: SP_def GT_def)
      with True show ?thesis by (simp add: lt_then_gt_def)
    next
      case F: False
      with 2 False show ?thesis by (simp add: lt_then_gt_def)
    qed
  qed
qed

subsection \<open>Whitespace and \<open>strip\<close>\<close>

lemma double_space_Cons: "\<not> is_space c \<Longrightarrow> double_space (c # u) = double_space u"
  by (cases u) auto

lemma sub_space_head:
  assumes "t = [] \<or> \<not> is_space (hd t)"
  shows "sub_space t = [] \<or> \<not> is_space (hd (sub_space t))"
  using assms by (cases t) auto

lemma dropWhile_space: "dropWhile is_space cs = [] \<or> \<not> is_space (hd (dropWhile is_space cs))"
  using hd_dropWhile [of is_space cs] by blast

lemma no_double_sub_space: "\<not> double_space (sub_space s)"
proof (induction s rule: sub_space.induct)
  case 1
  show ?case by simp
next
  case (2 c cs)
  show ?case
  proof (cases "is_space c")
    case True
    let ?t = "sub_space (dropWhile is_space cs)"
    have ih: "\<not> double_space ?t" using 2 True by simp
    have "?t = [] \<or> \<not> is_space (hd ?t)"
      by (rule sub_space_head) (rule dropWhile_space)
    with ih have "\<not> double_space (SP # ?t)" by (cases ?t) auto
    with True show ?thesis by simp
  next
    case False
    with 2 show ?thesis by (simp add: double_space_Cons)
  qed
qed

lemma sub_space_only_SP: "c \<in> set (sub_space s) \<Longrightarrow> is_space c \<Longrightarrow> c = SP"
proof (induction s rule: sub_space.induct)
  case 1
  then show ?case by simp
next
  case (2 x xs)
  then show ?case by (cases "is_space x") auto
qed

lemma sub_space_id:
  "\<not> double_space s \<Longrightarrow> (\<forall>c\<in>set s. is_space c \<longrightarrow> c = SP) \<Longrightarrow> sub_space s = s"
proof (induction s rule: sub_space.induct)
  case 1
  show ?case by simp
next
  case (2 c cs)
  show ?case
  proof (cases "is_space c")
    case True
    with 2(3) have "cs = [] \<or> \<not> is_space (hd cs)" by (cases cs) auto
    then have d: "dropWhile is_space cs = cs" by (cases cs) auto
    from 2(3) have "\<not> double_space cs" by (cases cs) auto
    with 2 True d show ?thesis by simp
  next
    case False
    with 2(3) have "\<not> double_space cs" by (simp add: double_space_Cons)
    with 2 False show ?thesis by simp
  qed
qed

lemma rev_dropWhile_takeWhile:
  "rev (dropWhile P (rev xs)) @ rev (takeWhile P (rev xs)) = xs"
proof -
  have "rev (dropWhile P (rev xs)) @ rev (takeWhile P (rev xs)) =
        rev (takeWhile P (rev xs) @ dropWhile P (rev xs))"
    by (simp only: rev_append)
  also have "\<dots> = rev (rev xs)" by (simp only: takeWhile_dropWhile_id)
  also have "\<dots> = xs" by simp
  finally show ?thesis .
qed

lemma strip_suffix: "strip s @ rev (takeWhile is_space (rev (dropWhile is_space s))) = dropWhile is_space s"
  unfolding strip_def by (rule rev_dropWhile_takeWhile)

lemma strip_decomp: "\<exists>a b. s = a @ strip s @ b"
proof -
  have "takeWhile is_space s @ dropWhile is_space s = s" by (rule takeWhile_dropWhile_id)
  then have "s = takeWhile is_space s @ strip s @ rev (takeWhile is_space (rev (dropWhile is_space s)))"
    by (simp only: strip_suffix)
  then show ?thesis by blast
qed

lemma trimmed_strip: "trimmed (strip s)"
proof (cases "strip s = []")
  case True
  then show ?thesis by (simp add: trimmed_def)
next
  case False
  let ?t = "dropWhile is_space s"
  let ?u = "dropWhile is_space (rev ?t)"
  from False have u: "?u \<noteq> []" by (simp add: strip_def)
  then have 1: "\<not> is_space (hd ?u)" by (rule hd_dropWhile)
  have l: "last (strip s) = hd ?u" using u by (simp add: strip_def last_rev)
  have t: "?t \<noteq> []"
  proof
    assume e: "?t = []"
    have "?u = []" unfolding e by simp
    with u show False by simp
  qed
  then have 2: "\<not> is_space (hd ?t)" by (rule hd_dropWhile)
  have "hd (strip s @ rev (takeWhile is_space (rev ?t))) = hd (strip s)"
    using False by (rule hd_append2)
  then have "hd ?t = hd (strip s)" by (simp only: strip_suffix)
  with 1 2 l show ?thesis by (simp add: trimmed_def)
qed

lemma strip_id:
  assumes "trimmed s"
  shows "strip s = s"
proof (cases s)
  case Nil
  then show ?thesis by (simp add: strip_def)
next
  case (Cons c cs)
  with assms have h: "\<not> is_space c" and l: "\<not> is_space (last s)" by (auto simp: trimmed_def)
  from h Cons have 1: "dropWhile is_space s = s" by simp
  from Cons have "rev s \<noteq> []" by simp
  then obtain y ys where r: "rev s = y # ys" by (cases "rev s") auto
  from Cons have "hd (rev s) = last s" by (simp add: hd_rev)
  with r l have "\<not> is_space y" by simp
  then have "dropWhile is_space (rev s) = rev s" unfolding r by simp
  with 1 show ?thesis by (simp add: strip_def)
qed

lemma double_space_append:
  "double_space a \<Longrightarrow> double_space (a @ b)" "double_space b \<Longrightarrow> double_space (a @ b)"
proof -
  show "double_space a \<Longrightarrow> double_space (a @ b)"
    by (induction a rule: double_space.induct) auto
  have c: "double_space u \<Longrightarrow> double_space (x # u)" for x u by (cases u) auto
  show "double_space b \<Longrightarrow> double_space (a @ b)"
    by (induction a) (auto intro: c)
qed

lemma strip_props:
  "has_url (strip s) \<Longrightarrow> has_url s"
  "lt_then_gt (strip s) \<Longrightarrow> lt_then_gt s"
  "double_space (strip s) \<Longrightarrow> double_space s"
  "set (strip s) \<subseteq> set s"
proof -
  from strip_decomp [of s] obtain a b where s: "s = a @ strip s @ b" by blast
  show "has_url (strip s) \<Longrightarrow> has_url s"
    using has_url_append(1) [of "strip s" b] has_url_append(2) [of "strip s @ b" a] s by simp
  show "lt_then_gt (strip s) \<Longrightarrow> lt_then_gt s"
    using lt_then_gt_append(1) [of "strip s" b] lt_then_gt_append(2) [of "strip s @ b" a] s by simp
  show "double_space (strip s) \<Longrightarrow> double_space s"
    using double_space_append(1) [of "strip s" b] double_space_append(2) [of "strip s @ b" a] s
    by simp
  show "set (strip s) \<subseteq> set s"
    using s by (metis Un_upper1 Un_upper2 set_append subset_trans)
qed

subsection \<open>The whole normalizer\<close>

lemma clean_text_spacing: "\<not> double_space (clean_text x) \<and> trimmed (clean_text x)"
  unfolding clean_text_def
  using strip_props(3) [of "sub_space (sub_tag (sub_url x))"] no_double_sub_space trimmed_strip
  by blast

lemma clean_text_only_SP: "c \<in> set (clean_text x) \<Longrightarrow> is_space c \<Longrightarrow> c = SP"
  unfolding clean_text_def
  using strip_props(4) [of "sub_space (sub_tag (sub_url x))"] sub_space_only_SP by blast

lemma clean_text_no_url:
  assumes "\<not> has_tag (sub_url x)"
  shows "\<not> has_url (clean_text x)"
proof
  assume "has_url (clean_text x)"
  then have "has_url (sub_space (sub_tag (sub_url x)))"
    unfolding clean_text_def by (rule strip_props(1))
  then have "has_url (sub_tag (sub_url x))" by (rule has_url_sub_space)
  then have "has_url (sub_url x)" using assms by (simp add: sub_tag_id)
  then show False by (simp add: no_url_sub_url)
qed

lemma no_tag_sub_url: "LT \<notin> set x \<or> GT \<notin> set x \<Longrightarrow> \<not> has_tag (sub_url x)"
  using set_sub_url [of x] no_LT_no_tag [of "sub_url x"] no_GT_no_tag [of "sub_url x"] by blast

lemma clean_text_no_lt_gt:
  assumes "LF \<notin> set x"
  shows "\<not> lt_then_gt (clean_text x)"
proof
  assume "lt_then_gt (clean_text x)"
  then have "lt_then_gt (sub_space (sub_tag (sub_url x)))"
    unfolding clean_text_def by (rule strip_props(2))
  then have "lt_then_gt (sub_tag (sub_url x))" by (rule lt_then_gt_sub_space)
  moreover have "LF \<notin> set (sub_url x)" using assms set_sub_url [of x] by blast
  ultimately show False using no_lt_then_gt_sub_tag by blast
qed

lemma set_clean_text: "set (clean_text x) \<subseteq> insert SP (set x)"
proof -
  have "set (clean_text x) \<subseteq> set (sub_space (sub_tag (sub_url x)))"
    unfolding clean_text_def by (rule strip_props(4))
  also have "\<dots> \<subseteq> insert SP (set (sub_tag (sub_url x)))" by (rule set_sub_space)
  also have "\<dots> \<subseteq> insert SP (set x)" using set_sub_tag [of "sub_url x"] set_sub_url [of x] by blast
  finally show ?thesis .
qed

lemma clean_text_fixed:
  assumes "\<not> has_url (clean_text x)" "\<not> has_tag (clean_text x)"
  shows "clean_text (clean_text x) = clean_text x"
proof -
  let ?w = "clean_text x"
  have 1: "sub_url ?w = ?w" using assms(1) by (rule sub_url_id)
  have 2: "sub_tag ?w = ?w" using assms(2) by (rule sub_tag_id)
  have 3: "sub_space ?w = ?w"
    using clean_text_spacing [of x] clean_text_only_SP [of _ x] by (auto intro: sub_space_id)
  have 4: "strip ?w = ?w" using clean_text_spacing [of x] by (auto intro: strip_id)
  show ?thesis by (simp add: clean_text_def [of ?w] 1 2 3 4)
qed

lemma length_sub_url: "length (sub_url s) \<le> length s"
proof (induction s rule: sub_url.induct)
  case 1
  show ?case by simp
next
  case (2 c cs)
  show ?case
  proof (cases "match_url (c # cs)")
    case None
    with 2 show ?thesis by simp
  next
    case (Some rest)
    from match_url_suffix [OF Some] have "length rest \<le> length (c # cs)" by (rule suffix_length_le)
    with Some 2 show ?thesis by simp
  qed
qed

lemma match_url_shorter: "match_url s = Some r \<Longrightarrow> length r < length s"
  by (auto simp: match_url_def match_word_Some split: option.splits
      intro: le_less_trans [OF length_dropWhile_le])

lemma length_sub_url_less: "has_url s \<Longrightarrow> length (sub_url s) < length s"
proof (induction s rule: sub_url.induct)
  case 1
  then show ?case by simp
next
  case (2 c cs)
  show ?case
  proof (cases "match_url (c # cs)")
    case None
    with 2 show ?thesis by simp
  next
    case (Some rest)
    have "length (sub_url rest) \<le> length rest" by (rule length_sub_url)
    also have "\<dots> < length (c # cs)" using Some by (rule match_url_shorter)
    finally show ?thesis using Some by simp
  qed
qed

lemma length_sub_tag: "length (sub_tag s) \<le> length s"
proof (induction s rule: sub_tag.induct)
  case 1
  show ?case by simp
next
  case (2 c cs)
  show ?case
  proof (cases "match_tag (c # cs)")
    case None
    with 2 show ?thesis by simp
  next
    case (Some rest)
    from match_tag_suffix [OF Some] have "length rest \<le> length (c # cs)" by (rule suffix_length_le)
    with Some 2 show ?thesis by simp
  qed
qed

lemma match_tag_shorter: "match_tag s = Some r \<Longrightarrow> length r < length s"
  by (auto simp: match_tag_def split: list.splits if_splits
      dest!: match_tag_body_suffix suffix_length_le)

lemma length_sub_tag_less: "has_tag s \<Longrightarrow> length (sub_tag s) < length s"
proof (induction s rule: sub_tag.induct)
  case 1
  then show ?case by simp
next
  case (2 c cs)
  show ?case
  proof (cases "match_tag (c # cs)")
    case None
    with 2 show ?thesis by simp
  next
    case (Some rest)
    have "length (sub_tag rest) \<le> length rest" by (rule length_sub_tag)
    also have "\<dots> < length (c # cs)" using Some by (rule match_tag_shorter)
    finally show ?thesis using Some by simp
  qed
qed

lemma length_sub_space: "length (sub_space s) \<le> length s"
proof (induction s rule: sub_space.induct)
  case 1
  show ?case by simp
next
  case (2 c cs)
  show ?case
  proof (cases "is_space c")
    case True
    with 2 have "length (sub_space (dropWhile is_space cs)) \<le> length (dropWhile is_space cs)"
      by simp
    also have "\<dots> \<le> length cs" by (rule length_dropWhile_le)
    finally show ?thesis using True by simp
  next
    case False
    with 2 show ?thesis by simp
  qed
qed

lemma length_strip: "length (strip s) \<le> length s"
proof -
  have "length (strip s) \<le> length (dropWhile is_space s)"
    unfolding strip_def using length_dropWhile_le [of is_space "rev (dropWhile is_space s)"]
    by simp
  also have "\<dots> \<le> length s" by (rule length_dropWhile_le)
  finally show ?thesis .
qed

lemma length_clean_text: "length (clean_text s) \<le> length (sub_tag (sub_url s))"
  unfolding clean_text_def
  using length_strip [of "sub_space (sub_tag (sub_url s))"] length_sub_space [of "sub_tag (sub_url s)"]
  by simp

lemma clean_text_shrinks:
  assumes "has_url s \<or> has_tag s"
  shows "length (clean_text s) < length s"
proof (cases "has_url s")
  case True
  have "length (clean_text s) \<le> length (sub_tag (sub_url s))" by (rule length_clean_text)
  also have "\<dots> \<le> length (sub_url s)" by (rule length_sub_tag)
  also have "\<dots> < length s" using True by (rule length_sub_url_less)
  finally show ?thesis .
next
  case False
  with assms have t: "has_tag s" by simp
  from False have e: "sub_url s = s" by (rule sub_url_id)
  have "length (clean_text s) \<le> length (sub_tag (sub_url s))" by (rule length_clean_text)
  also have "\<dots> < length s" unfolding e using t by (rule length_sub_tag_less)
  finally show ?thesis .
qed

lemma clean_text_idem_iff:
  "clean_text (clean_text x) = clean_text x \<longleftrightarrow>
     \<not> has_url (clean_text x) \<and> \<not> has_tag (clean_text x)"
  using clean_text_fixed [of x] clean_text_shrinks [of "clean_text x"] by fastforce

lemma clean_text_idem:
  assumes "LT \<notin> set x \<or> GT \<notin> set x"
  shows "clean_text (clean_text x) = clean_text x"
proof -
  have "\<not> has_url (clean_text x)"
    using assms by (intro clean_text_no_url no_tag_sub_url)
  moreover have "LT \<notin> set (clean_text x) \<or> GT \<notin> set (clean_text x)"
    using assms set_clean_text [of x] by (auto simp: SP_def LT_def GT_def)
  then have "\<not> has_tag (clean_text x)"
    using no_LT_no_tag no_GT_no_tag by blast
  ultimately show ?thesis by (rule clean_text_fixed)
qed


section \<open>The claims about the normalizer\<close>

text \<open>
  Claim C1 says the normalizer is idempotent on every input. It is not: the tag
  substitution runs after the URL substitution, and removing a tag can join the pieces
  of a URL. From \<open>ht<b>tp://x\<close> one pass makes \<open>http://x\<close>, and a second pass makes
  the empty string.
\<close>

theorem clean_tweet_content_not_idempotent:
  "clean_tweet_content (PyStr (ustr ''ht<b>tp://x'')) = ustr ''http://x'' \<and>
   clean_tweet_content (PyStr (clean_tweet_content (PyStr (ustr ''ht<b>tp://x'')))) = [] \<and>
   clean_tweet_content (PyStr (clean_tweet_content (PyStr (ustr ''ht<b>tp://x'')))) \<noteq>
     clean_tweet_content (PyStr (ustr ''ht<b>tp://x''))"
  by (simp add: clean_text_def ustr_def match_url_def match_word_def match_tag_def
      LT_def GT_def LF_def SP_def strip_def is_space_def)

text \<open>
  Claim C1, as amended: applying the normalizer twice gives the same result as applying
  it once for every input that is not a string, and for every string that has no
  opening angle bracket or no closing angle bracket in it. For any input at all, the
  second pass changes nothing exactly when the first pass's output holds no match of the
  URL pattern and no match of the tag pattern.
\<close>

theorem clean_tweet_content_idempotent_plain:
  "((\<forall>t. v = PyStr t \<longrightarrow> LT \<notin> set t \<or> GT \<notin> set t) \<longrightarrow>
      clean_tweet_content (PyStr (clean_tweet_content v)) = clean_tweet_content v) \<and>
   (clean_tweet_content (PyStr (clean_tweet_content v)) = clean_tweet_content v \<longleftrightarrow>
      \<not> has_url (clean_tweet_content v) \<and> \<not> has_tag (clean_tweet_content v))"
proof (cases v)
  case (PyStr t)
  then show ?thesis using clean_text_idem [of t] clean_text_idem_iff [of t] by simp
qed (simp_all add: clean_text_def strip_def)

text \<open>
  The amended claim C1 at a string with an opening angle bracket and no closing one: a
  second pass leaves \<open>Vaccine trials <3\<close> as it is.
\<close>

theorem clean_tweet_content_idempotent_plain_witness:
  "clean_tweet_content
     (PyStr (clean_tweet_content (PyStr (ustr ''  Vaccine   trials <3 http://x.co  '')))) =
     clean_tweet_content (PyStr (ustr ''  Vaccine   trials <3 http://x.co  '')) \<and>
   clean_tweet_content (PyStr (ustr ''  Vaccine   trials <3 http://x.co  '')) =
     ustr ''Vaccine trials <3''"
proof -
  let ?v = "PyStr (ustr ''  Vaccine   trials <3 http://x.co  '')"
  have h: "\<forall>t. ?v = PyStr t \<longrightarrow> LT \<notin> set t \<or> GT \<notin> set t"
    by (simp add: ustr_def LT_def GT_def)
  have "clean_tweet_content (PyStr (clean_tweet_content ?v)) = clean_tweet_content ?v"
    using clean_tweet_content_idempotent_plain [of ?v] h by blast
  moreover have "clean_tweet_content ?v = ustr ''Vaccine trials <3''"
    by (simp add: clean_text_def ustr_def match_url_def match_word_def match_tag_def
        LT_def GT_def LF_def SP_def strip_def is_space_def)
  ultimately show ?thesis by blast
qed

text \<open>
  Claim C2 says the output never holds an \<open>http\<close> or \<open>www\<close> token nor a tag. Two
  inputs show otherwise: \<open>ht<b>tp://x\<close> comes out as the URL \<open>http://x\<close>; and an
  opening bracket, a line feed and \<open><a>>\<close> come out as \<open>< >\<close>, which the tag pattern
  matches, because the line feed that kept the pattern from matching has become a space.
\<close>

theorem clean_tweet_content_leaves_url_and_tag:
  "clean_tweet_content (PyStr (ustr ''ht<b>tp://x'')) = ustr ''http://x'' \<and>
   has_url (ustr ''http://x'') \<and>
   clean_tweet_content (PyStr (ustr ''<\<newline><a>>'')) = ustr ''< >'' \<and>
   has_tag (ustr ''< >'')"
  by (simp add: clean_text_def ustr_def match_url_def match_word_def match_tag_def
      LT_def GT_def LF_def SP_def strip_def is_space_def)

text \<open>
  Claim C2, as amended: for every text input, the output has no two whitespace
  characters side by side and no whitespace at either end; it holds no match of the URL
  pattern when the input has no opening or no closing angle bracket in it; and it holds
  no match of the tag pattern when the input has no line feed in it.
\<close>

theorem clean_tweet_content_output:
  "\<not> double_space (clean_tweet_content (PyStr x)) \<and>
   trimmed (clean_tweet_content (PyStr x)) \<and>
   (LT \<notin> set x \<or> GT \<notin> set x \<longrightarrow> \<not> has_url (clean_tweet_content (PyStr x))) \<and>
   (LF \<notin> set x \<longrightarrow> \<not> has_tag (clean_tweet_content (PyStr x)))"
  using clean_text_spacing [of x] clean_text_no_url [of x] no_tag_sub_url [of x]
    clean_text_no_lt_gt [of x] has_tag_lt_then_gt [of "clean_text x"]
  by auto

text \<open>
  The amended claim C2 at an input with two URLs, runs of spaces and an opening angle
  bracket: the output is \<open>a <b c\<close>.
\<close>

theorem clean_tweet_content_output_witness:
  "\<not> double_space (clean_tweet_content (PyStr (ustr ''  a <b  www.x.y   http://t.co/1 c ''))) \<and>
   trimmed (clean_tweet_content (PyStr (ustr ''  a <b  www.x.y   http://t.co/1 c ''))) \<and>
   \<not> has_url (clean_tweet_content (PyStr (ustr ''  a <b  www.x.y   http://t.co/1 c ''))) \<and>
   \<not> has_tag (clean_tweet_content (PyStr (ustr ''  a <b  www.x.y   http://t.co/1 c ''))) \<and>
   clean_tweet_content (PyStr (ustr ''  a <b  www.x.y   http://t.co/1 c '')) = ustr ''a <b c''"
proof -
  let ?x = "ustr ''  a <b  www.x.y   http://t.co/1 c ''"
  have 1: "LT \<notin> set ?x \<or> GT \<notin> set ?x" by (simp add: ustr_def LT_def GT_def)
  have 2: "LF \<notin> set ?x" by (simp add: ustr_def LF_def)
  have 3: "clean_tweet_content (PyStr ?x) = ustr ''a <b c''"
    by (simp add: clean_text_def ustr_def match_url_def match_word_def match_tag_def
        LT_def GT_def LF_def SP_def strip_def is_space_def)
  from clean_tweet_content_output [of ?x] 1 2 3 show ?thesis by blast
qed

end
